theory Spec2Isabelle
  imports Main
begin

section \<open>Characters of a byte string\<close>

text \<open>
  \<^verbatim>\<open>abbr.py\<close> applies \<^verbatim>\<open>str\<close> patterns to what \<^verbatim>\<open>ZipFile.read\<close> and
  \<^verbatim>\<open>open(...).read()\<close> return, which are byte strings: a string is a \<^typ>\<open>char list\<close>,
  \<^verbatim>\<open>\d\<close> is \<^verbatim>\<open>[0-9]\<close>, \<^verbatim>\<open>\w\<close> is \<^verbatim>\<open>[a-zA-Z0-9_]\<close>, and \<^verbatim>\<open>re.IGNORECASE\<close>
  folds the ASCII letters only.
\<close>

definition code :: "char \<Rightarrow> nat" where
  "code c = of_char c"

definition is_digit :: "char \<Rightarrow> bool" where
  "is_digit c = (48 \<le> code c \<and> code c \<le> 57)"

definition is_upper :: "char \<Rightarrow> bool" where
  "is_upper c = (65 \<le> code c \<and> code c \<le> 90)"

definition is_lower :: "char \<Rightarrow> bool" where
  "is_lower c = (97 \<le> code c \<and> code c \<le> 122)"

definition is_alpha :: "char \<Rightarrow> bool" where
  "is_alpha c = (is_upper c \<or> is_lower c)"

definition is_word :: "char \<Rightarrow> bool" where
  "is_word c = (is_alpha c \<or> is_digit c \<or> c = CHR ''_'')"

definition lower :: "char \<Rightarrow> char" where
  "lower c = (if is_upper c then char_of (code c + 32) else c)"

definition newline :: char where
  "newline = CHR 0x0A"

definition tab :: char where
  "tab = CHR 0x09"

section \<open>The fragment of \<^verbatim>\<open>re\<close> that the program uses\<close>

text \<open>
  The three patterns of \<^verbatim>\<open>abbr.py\<close> are sequences of single characters, starred single
  characters (greedy \<^verbatim>\<open>*\<close> or lazy \<^verbatim>\<open>*?\<close>) and a leading \<^verbatim>\<open>^\<close>. A character class is
  a \<open>cls\<close>; the alternation \<^verbatim>\<open>(.|\n)\<close> has one character on each side and is the class
  \<open>Alt Dot (Lit newline)\<close>.
\<close>

datatype cls = Lit char | Range char char | Digit | WordC | Dot | Alt cls cls

datatype item = One cls | Greedy cls | Lazy cls | Bol

record flags =
  ignorecase :: bool
  multiline :: bool
  dotall :: bool

fun cls_ok :: "flags \<Rightarrow> cls \<Rightarrow> char \<Rightarrow> bool" where
  "cls_ok f (Lit a) c = (if ignorecase f then lower c = lower a else c = a)"
| "cls_ok f (Range a b) c =
     (if ignorecase f then code (lower a) \<le> code (lower c) \<and> code (lower c) \<le> code (lower b)
      else code a \<le> code c \<and> code c \<le> code b)"
| "cls_ok f Digit c = is_digit c"
| "cls_ok f WordC c = is_word c"
| "cls_ok f Dot c = (dotall f \<or> c \<noteq> newline)"
| "cls_ok f (Alt x y) c = (cls_ok f x c \<or> cls_ok f y c)"

text \<open>
  \<open>rmatch f p bol s\<close> is the backtracking match of the pattern \<open>p\<close> at the head of \<open>s\<close>:
  the text of the first match in the order in which \<^verbatim>\<open>re\<close> tries them (a greedy star takes
  a character before it tries the rest, a lazy star tries the rest first), or \<open>None\<close>. \<open>bol\<close>
  says whether \<^verbatim>\<open>^\<close> matches at the current position: at the start of the text and, with
  \<^verbatim>\<open>re.MULTILINE\<close>, after a newline.
\<close>

fun rmatch :: "flags \<Rightarrow> item list \<Rightarrow> bool \<Rightarrow> string \<Rightarrow> string option" where
  "rmatch f [] bol s = Some []"
| "rmatch f (Bol # p) bol s = (if bol then rmatch f p bol s else None)"
| "rmatch f (One k # p) bol [] = None"
| "rmatch f (One k # p) bol (c # s) =
     (if cls_ok f k c
      then map_option (Cons c) (rmatch f p (multiline f \<and> c = newline) s)
      else None)"
| "rmatch f (Greedy k # p) bol [] = rmatch f p bol []"
| "rmatch f (Greedy k # p) bol (c # s) =
     (if cls_ok f k c
      then (case rmatch f (Greedy k # p) (multiline f \<and> c = newline) s of
              Some m \<Rightarrow> Some (c # m)
            | None \<Rightarrow> rmatch f p bol (c # s))
      else rmatch f p bol (c # s))"
| "rmatch f (Lazy k # p) bol [] = rmatch f p bol []"
| "rmatch f (Lazy k # p) bol (c # s) =
     (case rmatch f p bol (c # s) of
        Some m \<Rightarrow> Some m
      | None \<Rightarrow>
          (if cls_ok f k c
           then map_option (Cons c) (rmatch f (Lazy k # p) (multiline f \<and> c = newline) s)
           else None))"

text \<open>
  \<^verbatim>\<open>re.findall\<close> scans from left to right: where the pattern matches, the match is
  collected and the scan goes on behind it; elsewhere it moves one character on. None of
  the program's patterns matches the empty string (lemma \<open>patterns_nonempty\<close>); for an
  empty match \<^verbatim>\<open>re\<close> collects it and moves one character on, which is what
  \<open>drop (length m - 1)\<close> does.
\<close>

fun re_findall :: "flags \<Rightarrow> item list \<Rightarrow> bool \<Rightarrow> string \<Rightarrow> string list" where
  "re_findall f p bol [] = (case rmatch f p bol [] of Some m \<Rightarrow> [m] | None \<Rightarrow> [])"
| "re_findall f p bol (c # s) =
     (case rmatch f p bol (c # s) of
        None \<Rightarrow> re_findall f p (multiline f \<and> c = newline) s
      | Some m \<Rightarrow>
          m # re_findall f p (multiline f \<and> last (c # take (length m - 1) s) = newline)
                (drop (length m - 1) s))"

text \<open>
  \<^verbatim>\<open>re.sub\<close> scans the same way, copies the characters outside the matches and writes the
  replacement for each match. (An empty match, which the pattern of \<open>cleanup\<close> never has,
  would not be replaced here.)
\<close>

fun re_sub :: "flags \<Rightarrow> item list \<Rightarrow> string \<Rightarrow> bool \<Rightarrow> string \<Rightarrow> string" where
  "re_sub f p repl bol [] = []"
| "re_sub f p repl bol (c # s) =
     (case rmatch f p bol (c # s) of
        None \<Rightarrow> c # re_sub f p repl (multiline f \<and> c = newline) s
      | Some [] \<Rightarrow> c # re_sub f p repl (multiline f \<and> c = newline) s
      | Some (x # m) \<Rightarrow>
          repl @ re_sub f p repl (multiline f \<and> last (c # take (length m) s) = newline)
                   (drop (length m) s))"

definition no_flags :: flags where
  "no_flags = \<lparr>ignorecase = False, multiline = False, dotall = False\<rparr>"

section \<open>The class \<^verbatim>\<open>Document\<close>\<close>

subsection \<open>\<^verbatim>\<open>cleanup\<close>\<close>

text \<open>\<^verbatim>\<open>re.sub("<(.|\n)*?>", " ", data)\<close>\<close>

definition tag_pattern :: "item list" where
  "tag_pattern = [One (Lit CHR ''<''), Lazy (Alt Dot (Lit newline)), One (Lit CHR ''>'')]"

definition cleanup :: "string \<Rightarrow> string" where
  "cleanup data = re_sub no_flags tag_pattern '' '' True data"


subsection \<open>Failures\<close>

text \<open>
  The exceptions the class can raise: a file that cannot be opened, an archive without the
  member \<^verbatim>\<open>word/document.xml\<close> or a format missing from \<^verbatim>\<open>self.parsers\<close> (both
  \<^verbatim>\<open>KeyError\<close>), \<^verbatim>\<open>self.abbreviations\<close> read before \<^verbatim>\<open>import_database\<close> has set it,
  and an index out of range.
\<close>

datatype error = IOError | KeyError | AttributeError | IndexError

subsection \<open>The instance and what it reads\<close>

text \<open>
  An entry of \<^verbatim>\<open>self.parsers\<close>. The engine is a function of the module \<^verbatim>\<open>parsers\<close>: it maps
  the matched lines to a list of (score, fields) pairs, best first, or raises. The delimiter
  \<^verbatim>\<open>'\\t'\<close> is pattern text; it is kept as the characters that text denotes.
\<close>

record ('s, 'f) parser =
  engine :: "string list \<Rightarrow> error + ('s \<times> 'f) list"
  delimiter :: string

record ('s, 'f) document =
  doc :: string
  database :: string
  permissive :: bool
  db_type :: string
  content :: string
  parsers :: "string \<rightharpoonup> ('s, 'f) parser"
  abbreviations :: "string option"

text \<open>
  The files the instance reads: the members of each DOCX archive, and the text of each
  plain file.
\<close>

record world =
  archives :: "string \<rightharpoonup> (string \<rightharpoonup> string)"
  files :: "string \<rightharpoonup> string"

definition opener :: "world \<Rightarrow> string \<Rightarrow> error + string" where
  "opener w doc_file =
     (case archives w doc_file of
        None \<Rightarrow> Inl IOError
      | Some file_obj \<Rightarrow>
          (case file_obj ''word/document.xml'' of
             None \<Rightarrow> Inl KeyError
           | Some xml \<Rightarrow> Inr xml))"

definition read :: "world \<Rightarrow> string \<Rightarrow> error + string" where
  "read w doc_file =
     (case opener w doc_file of
        Inl e \<Rightarrow> Inl e
      | Inr xml_content \<Rightarrow> Inr (cleanup xml_content))"

text \<open>
  \<^verbatim>\<open>__init__\<close>; \<open>adam\<close> is \<^verbatim>\<open>parsers.adam\<close>. \<^verbatim>\<open>self.abbreviations\<close> does not exist
  until \<^verbatim>\<open>import_database\<close> runs.
\<close>

definition init ::
  "world \<Rightarrow> (string list \<Rightarrow> error + ('s \<times> 'f) list) \<Rightarrow> string \<Rightarrow> string \<Rightarrow> string \<Rightarrow> bool
   \<Rightarrow> error + ('s, 'f) document" where
  "init w adam doc_file db_file dbtype perm =
     (case read w doc_file of
        Inl e \<Rightarrow> Inl e
      | Inr text \<Rightarrow>
          Inr \<lparr>doc = doc_file, database = db_file, permissive = perm, db_type = dbtype,
               content = text,
               parsers = [''adam'' \<mapsto> \<lparr>engine = adam, delimiter = [tab]\<rparr>],
               abbreviations = None\<rparr>)"

subsection \<open>\<^verbatim>\<open>find_abbr\<close>\<close>

text \<open>
  \<^verbatim>\<open>re.compile("\((?P<abb>\d*[a-z]\w*)\)", re.DOTALL|re.IGNORECASE|re.MULTILINE)\<close>.
  \<^verbatim>\<open>findall\<close> returns the text of the one group, which is the match without its two
  parentheses.
\<close>

definition abbrs_flags :: flags where
  "abbrs_flags = \<lparr>ignorecase = True, multiline = True, dotall = True\<rparr>"

definition abbrs :: "item list" where
  "abbrs = [One (Lit CHR ''(''), Greedy Digit, One (Range CHR ''a'' CHR ''z''), Greedy WordC,
            One (Lit CHR '')'')]"

definition abb :: "string \<Rightarrow> string" where
  "abb m = butlast (tl m)"

definition abbrs_findall :: "string \<Rightarrow> string list" where
  "abbrs_findall text = map abb (re_findall abbrs_flags abbrs True text)"

text \<open>
  \<open>plurals\<close> is \<^verbatim>\<open>tools.plurals\<close>. \<^verbatim>\<open>list(set(chain))\<close> has no duplicates and no
  specified order; the model keeps the order of \<open>remdups\<close>.
\<close>

definition find_abbr :: "(string \<Rightarrow> string list) \<Rightarrow> ('s, 'f) document \<Rightarrow> string list" where
  "find_abbr plurals d = remdups (concat (map plurals (abbrs_findall (content d))))"

subsection \<open>\<^verbatim>\<open>import_database\<close>\<close>

definition import_database :: "world \<Rightarrow> ('s, 'f) document \<Rightarrow> error + ('s, 'f) document" where
  "import_database w d =
     (case files w (database d) of
        None \<Rightarrow> Inl IOError
      | Some text \<Rightarrow> Inr (d\<lparr>abbreviations := Some text\<rparr>))"

subsection \<open>\<^verbatim>\<open>search_database\<close>\<close>

text \<open>
  The candidate and the delimiter are spliced into the pattern text. Each of their
  characters is read here as a literal, which is what \<^verbatim>\<open>re\<close> does with the word characters
  that the pattern of \<open>find_abbr\<close> extracts and with the escape \<^verbatim>\<open>\t\<close>. A candidate
  with a character that is special in a pattern, which only \<open>plurals\<close> could produce, is
  outside this model.
\<close>

definition literal :: "string \<Rightarrow> item list" where
  "literal t = map (\<lambda>c. One (Lit c)) t"

text \<open>
  \<open>search_string\<close> is the template, a function of the candidate that \<^verbatim>\<open>%\<close> fills in:
  \<^verbatim>\<open>"^%s.*?\\n"\<close> when permissive, \<^verbatim>\<open>"^%s" + delimiter + ".*?\\n"\<close> otherwise, where
  the delimiter is looked up in \<^verbatim>\<open>self.parsers[self.db_type]\<close>.
\<close>

definition search_string :: "('s, 'f) document \<Rightarrow> error + (string \<Rightarrow> item list)" where
  "search_string d =
     (if permissive d
      then Inr (\<lambda>abbr. Bol # literal abbr @ [Lazy Dot, One (Lit newline)])
      else (case parsers d (db_type d) of
              None \<Rightarrow> Inl KeyError
            | Some p \<Rightarrow>
                Inr (\<lambda>abbr. Bol # literal abbr @ literal (delimiter p)
                               @ [Lazy Dot, One (Lit newline)])))"

definition search_flags :: flags where
  "search_flags = \<lparr>ignorecase = True, multiline = True, dotall = False\<rparr>"

text \<open>
  \<open>results\<close>: \<^verbatim>\<open>re.findall(search_string % abbr, self.abbreviations,
  re.MULTILINE|re.IGNORECASE)\<close>.
\<close>

definition results :: "('s, 'f) document \<Rightarrow> string \<Rightarrow> error + string list" where
  "results d abbr =
     (case search_string d of
        Inl e \<Rightarrow> Inl e
      | Inr pat \<Rightarrow>
          (case abbreviations d of
             None \<Rightarrow> Inl AttributeError
           | Some text \<Rightarrow> Inr (re_findall search_flags (pat abbr) True text)))"

text \<open>The body of the \<^verbatim>\<open>for\<close> loop, over the candidates that are left.\<close>

fun search_loop ::
  "('s, 'f) document \<Rightarrow> string list \<Rightarrow> (string \<rightharpoonup> ('s \<times> 'f) list)
   \<Rightarrow> error + (string \<rightharpoonup> ('s \<times> 'f) list)" where
  "search_loop d [] matches = Inr matches"
| "search_loop d (abbr # rest) matches =
     (case results d abbr of
        Inl e \<Rightarrow> Inl e
      | Inr lines \<Rightarrow>
          (case parsers d (db_type d) of
             None \<Rightarrow> Inl KeyError
           | Some p \<Rightarrow>
               (case engine p lines of
                  Inl e \<Rightarrow> Inl e
                | Inr ranked \<Rightarrow> search_loop d rest (matches(abbr \<mapsto> ranked)))))"

text \<open>
  The method returns the instance as it leaves it, and the dictionary or the exception.
\<close>

definition search_database ::
  "(string \<Rightarrow> string list) \<Rightarrow> ('s, 'f) document
   \<Rightarrow> ('s, 'f) document \<times> (error + (string \<rightharpoonup> ('s \<times> 'f) list))" where
  "search_database plurals d = (d, search_loop d (find_abbr plurals d) Map.empty)"

subsection \<open>\<^verbatim>\<open>get_top\<close>\<close>

text \<open>\<^verbatim>\<open>abbr_match[0][1]\<close>\<close>

definition get_top :: "('s \<times> 'f) list \<Rightarrow> error + 'f" where
  "get_top abbr_match =
     (case abbr_match of
        [] \<Rightarrow> Inl IndexError
      | first # _ \<Rightarrow> Inr (snd first))"

section \<open>Notions of the specification\<close>

text \<open>A tag-delimited span: a \<^verbatim>\<open><\<close> with a \<^verbatim>\<open>>\<close> somewhere behind it.\<close>

definition has_tag :: "string \<Rightarrow> bool" where
  "has_tag s = (\<exists>pre mid post. s = pre @ CHR ''<'' # mid @ CHR ''>'' # post)"

text \<open>
  The lines of the database text, each with the newline that ends it; what follows the
  last newline is not a line.
\<close>

fun lines_from :: "string \<Rightarrow> string \<Rightarrow> string list" where
  "lines_from cur [] = []"
| "lines_from cur (c # s) =
     (if c = newline then rev (c # cur) # lines_from [] s else lines_from (c # cur) s)"

definition db_lines :: "string \<Rightarrow> string list" where
  "db_lines text = lines_from [] text"

text \<open>\<open>begins_with x l\<close>: the line \<open>l\<close> begins with \<open>x\<close>, letters compared without case.\<close>

definition begins_with :: "string \<Rightarrow> string \<Rightarrow> bool" where
  "begins_with x l = (length x \<le> length l \<and> map lower (take (length x) l) = map lower x)"

text \<open>
  The shape \<^verbatim>\<open>\d*[a-z]\w*\<close> of a token: digits, then a letter, then word characters.
\<close>

definition abbr_shaped :: "string \<Rightarrow> bool" where
  "abbr_shaped x =
     (case dropWhile is_digit x of [] \<Rightarrow> False | a # ws \<Rightarrow> is_alpha a \<and> list_all is_word ws)"

text \<open>A pluralization helper that derives no variant: the token itself.\<close>

definition itself :: "string \<Rightarrow> string list" where
  "itself x = [x]"

text \<open>
  Modelled from the spec: \<^verbatim>\<open>tools.plurals\<close> is not among the sources. The specification
  asks of the pluralization helper a sequence of variants that is not empty and holds the
  token itself, and the comment in \<open>find_abbr\<close> says that it derives singular forms.
  \<open>singular\<close> is one helper of that kind: the token, and the token without a final
  \<^verbatim>\<open>s\<close>.
\<close>

definition singular :: "string \<Rightarrow> string list" where
  "singular x = (if x \<noteq> [] \<and> last x = CHR ''s'' then [x, butlast x] else [x])"

section \<open>An example instance\<close>

text \<open>
  An engine that scores every line 0 and keeps the line as its fields, a database text of
  two lines, and an instance as \<^verbatim>\<open>__init__\<close> and \<^verbatim>\<open>import_database\<close> leave it.
\<close>

definition example_engine :: "string list \<Rightarrow> error + (nat \<times> string) list" where
  "example_engine ls = Inr (map (\<lambda>l. (0, l)) ls)"

definition example_db :: string where
  "example_db = ''GEF'' @ [tab] @ ''foo'' @ [newline] @ ''GEFS'' @ [tab] @ ''bar'' @ [newline]"

definition example_doc ::
  "string \<Rightarrow> bool \<Rightarrow> string \<Rightarrow> string option \<Rightarrow> (nat, string) document" where
  "example_doc dbtype perm body db =
     \<lparr>doc = ''paper.docx'', database = ''adam.txt'', permissive = perm, db_type = dbtype,
      content = body,
      parsers = [''adam'' \<mapsto> \<lparr>engine = example_engine, delimiter = [tab]\<rparr>],
      abbreviations = db\<rparr>"

definition example_world :: "string \<Rightarrow> world" where
  "example_world xml =
     \<lparr>archives = [''paper.docx'' \<mapsto> [''word/document.xml'' \<mapsto> xml]],
      files = [''adam.txt'' \<mapsto> example_db]\<rparr>"

section \<open>The patterns match no empty string\<close>

lemma rmatch_nonempty:
  "rmatch f p b s = Some m \<Longrightarrow> One k \<in> set p \<Longrightarrow> m \<noteq> []"
proof (induction f p b s arbitrary: m rule: rmatch.induct)
  case (6 f k' p bol c s)
  then show ?case by (auto split: if_splits option.splits)
next
  case (8 f k' p bol c s)
  then show ?case by (auto split: if_splits option.splits)
qed (auto split: if_splits)

lemma patterns_nonempty:
  "rmatch no_flags tag_pattern b s \<noteq> Some []"
  "rmatch abbrs_flags abbrs b s \<noteq> Some []"
  "rmatch search_flags (Bol # literal x @ [Lazy Dot, One (Lit newline)]) b s \<noteq> Some []"
  "rmatch search_flags (Bol # literal x @ literal y @ [Lazy Dot, One (Lit newline)]) b s \<noteq> Some []"
proof -
  show "rmatch no_flags tag_pattern b s \<noteq> Some []"
    using rmatch_nonempty [of no_flags tag_pattern b s "[]" "Lit CHR ''<''"]
    by (auto simp: tag_pattern_def)
  show "rmatch abbrs_flags abbrs b s \<noteq> Some []"
    using rmatch_nonempty [of abbrs_flags abbrs b s "[]" "Lit CHR ''(''"]
    by (auto simp: abbrs_def)
  show "rmatch search_flags (Bol # literal x @ [Lazy Dot, One (Lit newline)]) b s \<noteq> Some []"
    using rmatch_nonempty [of search_flags "Bol # literal x @ [Lazy Dot, One (Lit newline)]" b s "[]" "Lit newline"]
    by auto
  show "rmatch search_flags (Bol # literal x @ literal y @ [Lazy Dot, One (Lit newline)]) b s \<noteq> Some []"
    using rmatch_nonempty [of search_flags "Bol # literal x @ literal y @ [Lazy Dot, One (Lit newline)]" b s "[]" "Lit newline"]
    by auto
qed

section \<open>The markup normalizer\<close>



lemma nf_flags [simp]: "multiline no_flags = False" "ignorecase no_flags = False" "dotall no_flags = False"
  by (simp_all add: no_flags_def)

lemma lazy_any_gt:
  "rmatch no_flags [Lazy (Alt Dot (Lit newline)), One (Lit CHR ''>'')] b s =
     (if CHR ''>'' \<in> set s then Some (takeWhile (\<lambda>c. c \<noteq> CHR ''>'') s @ [CHR ''>'']) else None)"
  by (induction s arbitrary: b) auto

lemma tag_match:
  "rmatch no_flags tag_pattern b (c # s) =
     (if c = CHR ''<'' \<and> CHR ''>'' \<in> set s
      then Some (c # takeWhile (\<lambda>c. c \<noteq> CHR ''>'') s @ [CHR ''>'']) else None)"
  by (simp add: tag_pattern_def lazy_any_gt)

lemma drop_takeWhile_Suc:
  "x \<in> set s \<Longrightarrow> drop (Suc (length (takeWhile (\<lambda>c. c \<noteq> x) s))) s = tl (dropWhile (\<lambda>c. c \<noteq> x) s)"
  by (induction s) auto

lemma sub_tag_step:
  "re_sub no_flags tag_pattern r b (c # s) =
     (if c = CHR ''<'' \<and> CHR ''>'' \<in> set s
      then r @ re_sub no_flags tag_pattern r False (tl (dropWhile (\<lambda>c. c \<noteq> CHR ''>'') s))
      else c # re_sub no_flags tag_pattern r False s)"
  by (simp add: tag_match drop_takeWhile_Suc)

lemma sub_tag_bol:
  "re_sub no_flags tag_pattern r b s = re_sub no_flags tag_pattern r False s"
proof (cases s)
  case Nil then show ?thesis by simp
next
  case (Cons c t) then show ?thesis by (simp only: sub_tag_step)
qed

lemma cleanup_Nil: "cleanup [] = []"
  by (simp add: cleanup_def)

lemma cleanup_Cons:
  "cleanup (c # s) =
     (if c = CHR ''<'' \<and> CHR ''>'' \<in> set s
      then CHR '' '' # cleanup (tl (dropWhile (\<lambda>c. c \<noteq> CHR ''>'') s))
      else c # cleanup s)"
  unfolding cleanup_def
  by (subst sub_tag_step) (simp add: sub_tag_bol [of _ True])



lemma has_tag_Nil: "\<not> has_tag []"
  by (simp add: has_tag_def)

lemma has_tag_Cons: "has_tag (c # s) = ((c = CHR ''<'' \<and> CHR ''>'' \<in> set s) \<or> has_tag s)"
proof
  assume "has_tag (c # s)"
  then obtain pre mid post where e: "c # s = pre @ CHR ''<'' # mid @ CHR ''>'' # post"
    unfolding has_tag_def by blast
  show "(c = CHR ''<'' \<and> CHR ''>'' \<in> set s) \<or> has_tag s"
  proof (cases pre)
    case Nil
    with e show ?thesis by auto
  next
    case (Cons a pre')
    with e have "s = pre' @ CHR ''<'' # mid @ CHR ''>'' # post" by simp
    then show ?thesis unfolding has_tag_def by blast
  qed
next
  assume a: "(c = CHR ''<'' \<and> CHR ''>'' \<in> set s) \<or> has_tag s"
  show "has_tag (c # s)"
  proof (cases "has_tag s")
    case True
    then obtain pre mid post where "s = pre @ CHR ''<'' # mid @ CHR ''>'' # post"
      unfolding has_tag_def by blast
    then have "c # s = (c # pre) @ CHR ''<'' # mid @ CHR ''>'' # post" by simp
    then show ?thesis unfolding has_tag_def by blast
  next
    case False
    with a have c: "c = CHR ''<''" and "CHR ''>'' \<in> set s" by auto
    then obtain mid post where "s = mid @ CHR ''>'' # post"
      by (meson split_list)
    with c have "c # s = [] @ CHR ''<'' # mid @ CHR ''>'' # post" by simp
    then show ?thesis unfolding has_tag_def by blast
  qed
qed

lemma gt_cleanup: "CHR ''>'' \<in> set (cleanup s) \<Longrightarrow> CHR ''>'' \<in> set s"
  by (induction s) (auto simp: cleanup_Nil cleanup_Cons split: if_splits)

lemma cleanup_tag_free: "\<not> has_tag (cleanup s)"
proof (induction s rule: length_induct)
  case (1 s)
  show ?case
  proof (cases s)
    case Nil
    then show ?thesis by (simp add: cleanup_Nil has_tag_Nil)
  next
    case (Cons c t)
    show ?thesis
    proof (cases "c = CHR ''<'' \<and> CHR ''>'' \<in> set t")
      case True
      let ?r = "tl (dropWhile (\<lambda>c. c \<noteq> CHR ''>'') t)"
      have "length ?r < length s"
        using Cons by (simp add: less_Suc_eq_le le_trans [OF diff_le_self length_dropWhile_le])
      with 1 have "\<not> has_tag (cleanup ?r)" by blast
      with True Cons show ?thesis by (simp add: cleanup_Cons has_tag_Cons)
    next
      case False
      have "\<not> has_tag (cleanup t)" using 1 Cons by simp
      moreover have "c = CHR ''<'' \<Longrightarrow> CHR ''>'' \<notin> set (cleanup t)"
        using False gt_cleanup by blast
      ultimately show ?thesis using False Cons
        by (auto simp: cleanup_Cons has_tag_Cons)
    qed
  qed
qed

lemma cleanup_no_tag_id: "\<not> has_tag s \<Longrightarrow> cleanup s = s"
  by (induction s) (auto simp: cleanup_Nil cleanup_Cons has_tag_Cons)

lemma cleanup_span:
  "CHR ''<'' \<notin> set pre \<Longrightarrow> CHR ''>'' \<notin> set mid \<Longrightarrow>
   cleanup (pre @ CHR ''<'' # mid @ CHR ''>'' # rest) = pre @ CHR '' '' # cleanup rest"
proof (induction pre)
  case Nil
  have "dropWhile (\<lambda>c. c \<noteq> CHR ''>'') (mid @ CHR ''>'' # rest) = CHR ''>'' # rest"
    using Nil by (induction mid) auto
  then show ?case by (simp add: cleanup_Cons)
next
  case (Cons a pre)
  then show ?case by (auto simp: cleanup_Cons)
qed

text \<open>
  C4. The text that \<open>cleanup\<close> returns has no \<^verbatim>\<open><\<close> with a \<^verbatim>\<open>>\<close> behind it. A span from a
  \<^verbatim>\<open><\<close> to the first \<^verbatim>\<open>>\<close> behind it, with no \<^verbatim>\<open><\<close> before it, becomes one space, the
  characters before it stay, and the rest is cleaned the same way; a text without such a
  span is returned as it is.
\<close>

theorem cleanup_strips_tags:
  "\<not> has_tag (cleanup data) \<and>
   (\<forall>pre mid rest. CHR ''<'' \<notin> set pre \<and> CHR ''>'' \<notin> set mid \<longrightarrow>
      cleanup (pre @ CHR ''<'' # mid @ CHR ''>'' # rest) = pre @ CHR '' '' # cleanup rest) \<and>
   (\<not> has_tag data \<longrightarrow> cleanup data = data)"
  using cleanup_tag_free cleanup_no_tag_id cleanup_span by blast

theorem cleanup_strips_tags_witness:
  "cleanup ''a<b>c<d'' = ''a c<d'' \<and> \<not> has_tag (cleanup ''a<b>c<d'')"
proof -
  have n: "\<not> has_tag ''c<d''" by (simp add: has_tag_Cons has_tag_Nil)
  have "cleanup ''c<d'' = ''c<d''"
    using cleanup_strips_tags [of "''c<d''"] n by blast
  moreover have "CHR ''<'' \<notin> set ''a'' \<and> CHR ''>'' \<notin> set ''b''" by simp
  then have "cleanup (''a'' @ CHR ''<'' # ''b'' @ CHR ''>'' # ''c<d'') = ''a'' @ CHR '' '' # cleanup ''c<d''"
    using cleanup_strips_tags [of "''c<d''"] by blast
  moreover have "\<not> has_tag (cleanup ''a<b>c<d'')"
    using cleanup_strips_tags [of "''a<b>c<d''"] by blast
  ultimately show ?thesis by simp
qed


section \<open>Facts about characters\<close>

lemma code_lower: "is_upper c \<Longrightarrow> code (lower c) = code c + 32"
  by (simp add: lower_def code_def is_upper_def)

lemma code_inj: "code a = code b \<Longrightarrow> a = b"
  by (simp add: code_def)

lemma code_newline: "code newline = 10"
  by (simp add: code_def newline_def)

lemma lower_newline: "lower newline = newline"
  by (simp add: lower_def is_upper_def code_newline)

lemma lower_eq_newline: "(lower a = newline) = (a = newline)"
proof
  assume h: "lower a = newline"
  show "a = newline"
  proof (cases "is_upper a")
    case True
    then have "code (lower a) = code a + 32" by (rule code_lower)
    with h show ?thesis by (simp add: code_newline)
  next
    case False
    with h show ?thesis by (simp add: lower_def)
  qed
qed (simp add: lower_newline)

lemma newline_eq_lower: "(newline = lower a) = (a = newline)"
  using lower_eq_newline [of a] by auto

section \<open>The database matcher\<close>

lemma begins_with_Nil [simp]: "begins_with [] l"
  by (simp add: begins_with_def)

lemma begins_with_Cons_Nil [simp]: "\<not> begins_with (a # x) []"
  by (simp add: begins_with_def)

lemma begins_with_Cons_Cons [simp]:
  "begins_with (a # x) (c # l) = (lower c = lower a \<and> begins_with x l)"
  by (auto simp: begins_with_def)


lemma sf_flags [simp]:
  "ignorecase search_flags" "multiline search_flags" "\<not> dotall search_flags"
  by (simp_all add: search_flags_def)

lemma lazy_line:
  "newline \<notin> set l \<Longrightarrow>
   rmatch search_flags [Lazy Dot, One (Lit newline)] b (l @ newline # rest) = Some (l @ [newline])"
  by (induction l arbitrary: b) (auto simp: lower_newline lower_eq_newline)

lemma lazy_no_line:
  "newline \<notin> set s \<Longrightarrow> rmatch search_flags [Lazy Dot, One (Lit newline)] b s = None"
  by (induction s arbitrary: b) (auto simp: lower_newline lower_eq_newline)

lemma literal_line:
  "newline \<notin> set x \<Longrightarrow> newline \<notin> set l \<Longrightarrow>
   rmatch search_flags (literal x @ [Lazy Dot, One (Lit newline)]) b (l @ newline # rest) =
     (if begins_with x (l @ [newline]) then Some (l @ [newline]) else None)"
proof (induction x arbitrary: l b)
  case Nil
  then show ?case using lazy_line by (simp add: literal_def)
next
  case (Cons a x)
  then have IH: "\<And>l b. newline \<notin> set l \<Longrightarrow>
     rmatch search_flags (literal x @ [Lazy Dot, One (Lit newline)]) b (l @ newline # rest) =
     (if begins_with x (l @ [newline]) then Some (l @ [newline]) else None)"
    by simp
  from Cons.prems have an: "a \<noteq> newline" by auto
  show ?case
  proof (cases l)
    case Nil
    with an show ?thesis
      by (auto simp: literal_def lower_newline lower_eq_newline newline_eq_lower)
  next
    case (Cons c l')
    with Cons.prems have "newline \<notin> set l'" by simp
    from IH [OF this] Cons show ?thesis
      by (simp add: literal_def)
  qed
qed

lemma literal_no_line:
  "newline \<notin> set s \<Longrightarrow>
   rmatch search_flags (literal x @ [Lazy Dot, One (Lit newline)]) b s = None"
proof (induction x arbitrary: s b)
  case Nil
  then show ?case using lazy_no_line by (simp add: literal_def)
next
  case (Cons a x)
  then show ?case by (cases s) (auto simp: literal_def)
qed

lemma search_match_line:
  "newline \<notin> set x \<Longrightarrow> newline \<notin> set l \<Longrightarrow>
   rmatch search_flags (Bol # literal x @ [Lazy Dot, One (Lit newline)]) b (l @ newline # rest) =
     (if b \<and> begins_with x (l @ [newline]) then Some (l @ [newline]) else None)"
  by (simp add: literal_line)

lemma search_match_no_line:
  "newline \<notin> set s \<Longrightarrow>
   rmatch search_flags (Bol # literal x @ [Lazy Dot, One (Lit newline)]) b s = None"
  by (simp add: literal_no_line)



lemma findall_no_line:
  "newline \<notin> set s \<Longrightarrow>
   re_findall search_flags (Bol # literal x @ [Lazy Dot, One (Lit newline)]) b s = []"
proof (induction s arbitrary: b)
  case Nil
  then show ?case using search_match_no_line [of "[]" x b] by simp
next
  case (Cons c s)
  then have "newline \<notin> set (c # s)" by simp
  from search_match_no_line [OF this, of x b] Cons show ?case by simp
qed

lemma findall_skip:
  "newline \<notin> set l \<Longrightarrow>
   re_findall search_flags (Bol # literal x @ [Lazy Dot, One (Lit newline)]) False
      (l @ newline # rest) =
   re_findall search_flags (Bol # literal x @ [Lazy Dot, One (Lit newline)]) True rest"
  by (induction l) auto

lemma findall_line:
  assumes x: "newline \<notin> set x" and l: "newline \<notin> set l"
  shows "re_findall search_flags (Bol # literal x @ [Lazy Dot, One (Lit newline)]) True
           (l @ newline # rest) =
         (if begins_with x (l @ [newline]) then [l @ [newline]] else []) @
         re_findall search_flags (Bol # literal x @ [Lazy Dot, One (Lit newline)]) True rest"
proof -
  let ?p = "Bol # literal x @ [Lazy Dot, One (Lit newline)]"
  have m: "rmatch search_flags ?p True (l @ newline # rest) =
             (if begins_with x (l @ [newline]) then Some (l @ [newline]) else None)"
    using search_match_line [OF x l, of True rest] by simp
  show ?thesis
  proof (cases l)
    case Nil
    with m show ?thesis by simp
  next
    case (Cons c l')
    with l have c: "c \<noteq> newline" and l': "newline \<notin> set l'" by auto
    have e: "l @ newline # rest = c # (l' @ newline # rest)" using Cons by simp
    show ?thesis
    proof (cases "begins_with x (l @ [newline])")
      case True
      with m e have "rmatch search_flags ?p True (c # (l' @ newline # rest)) = Some (c # l' @ [newline])"
        using Cons by simp
      then have "re_findall search_flags ?p True (c # (l' @ newline # rest)) =
                   (c # l' @ [newline]) # re_findall search_flags ?p True rest"
        by simp
      with True e Cons show ?thesis by simp
    next
      case False
      with m e have "rmatch search_flags ?p True (c # (l' @ newline # rest)) = None"
        by simp
      then have "re_findall search_flags ?p True (c # (l' @ newline # rest)) =
                   re_findall search_flags ?p False (l' @ newline # rest)"
        using c by simp
      with False e findall_skip [OF l', of x rest] show ?thesis by simp
    qed
  qed
qed

lemma lines_from_no_line: "newline \<notin> set s \<Longrightarrow> lines_from cur s = []"
  by (induction s arbitrary: cur) auto

lemma lines_from_line:
  "newline \<notin> set l \<Longrightarrow>
   lines_from cur (l @ newline # rest) = (rev cur @ l @ [newline]) # lines_from [] rest"
  by (induction l arbitrary: cur) auto

lemma db_lines_no_line: "newline \<notin> set s \<Longrightarrow> db_lines s = []"
  by (simp add: db_lines_def lines_from_no_line)

lemma db_lines_line:
  "newline \<notin> set l \<Longrightarrow> db_lines (l @ newline # rest) = (l @ [newline]) # db_lines rest"
  by (simp add: db_lines_def lines_from_line)

lemma findall_db_lines:
  assumes x: "newline \<notin> set x"
  shows "re_findall search_flags (Bol # literal x @ [Lazy Dot, One (Lit newline)]) True db =
         filter (begins_with x) (db_lines db)"
proof (induction db rule: length_induct)
  case (1 db)
  show ?case
  proof (cases "newline \<in> set db")
    case False
    then show ?thesis by (simp add: findall_no_line db_lines_no_line)
  next
    case True
    then obtain l rest where t: "db = l @ newline # rest" and l: "newline \<notin> set l"
      by (meson split_list_first)
    then have "length rest < length db" by simp
    with 1 have "re_findall search_flags (Bol # literal x @ [Lazy Dot, One (Lit newline)]) True rest =
                 filter (begins_with x) (db_lines rest)"
      by blast
    with t show ?thesis
      by (simp add: findall_line [OF x l] db_lines_line [OF l])
  qed
qed

lemma db_lines_end: "l \<in> set (db_lines db) \<Longrightarrow> l \<noteq> [] \<and> last l = newline"
proof (induction db arbitrary: l rule: length_induct)
  case (1 db)
  show ?case
  proof (cases "newline \<in> set db")
    case False
    with 1 show ?thesis by (simp add: db_lines_no_line)
  next
    case True
    then obtain k rest where t: "db = k @ newline # rest" and k: "newline \<notin> set k"
      by (meson split_list_first)
    then have "length rest < length db" by simp
    with 1 have r: "\<And>x. x \<in> set (db_lines rest) \<Longrightarrow> x \<noteq> [] \<and> last x = newline"
      by blast
    from 1(2) t k have "l = k @ [newline] \<or> l \<in> set (db_lines rest)"
      by (simp add: db_lines_line)
    with r show ?thesis by auto
  qed
qed

lemma db_lines_unterminated:
  "newline \<notin> set final \<Longrightarrow> db_lines (db @ final) = db_lines db"
proof (induction db rule: length_induct)
  case (1 db)
  show ?case
  proof (cases "newline \<in> set db")
    case False
    with 1 show ?thesis by (simp add: db_lines_no_line)
  next
    case True
    then obtain k rest where t: "db = k @ newline # rest" and k: "newline \<notin> set k"
      by (meson split_list_first)
    then have "length rest < length db" by simp
    with 1 have "db_lines (rest @ final) = db_lines rest" by blast
    with t k show ?thesis
      using db_lines_line [OF k, of "rest @ final"] db_lines_line [OF k, of rest] by simp
  qed
qed

lemma word_not_newline: "is_word c \<Longrightarrow> c \<noteq> newline"
  by (auto simp: is_word_def is_alpha_def is_upper_def is_lower_def is_digit_def code_def newline_def)

lemma literal_append: "literal (x @ y) = literal x @ literal y"
  by (simp add: literal_def)

lemma results_permissive:
  "permissive d \<Longrightarrow> abbreviations d = Some db \<Longrightarrow> newline \<notin> set C \<Longrightarrow>
   results d C = Inr (filter (begins_with C) (db_lines db))"
  by (simp add: results_def search_string_def findall_db_lines)

lemma results_strict:
  "\<not> permissive d \<Longrightarrow> parsers d (db_type d) = Some p \<Longrightarrow> abbreviations d = Some db \<Longrightarrow>
   newline \<notin> set C \<Longrightarrow> newline \<notin> set (delimiter p) \<Longrightarrow>
   results d C = Inr (filter (begins_with (C @ delimiter p)) (db_lines db))"
  using findall_db_lines [of "C @ delimiter p" db]
  by (simp add: results_def search_string_def literal_append)

lemma results_unknown:
  "\<not> permissive d \<Longrightarrow> parsers d (db_type d) = None \<Longrightarrow> results d C = Inl KeyError"
  by (simp add: results_def search_string_def)

lemma words_no_newline: "\<forall>c\<in>set C. is_word c \<Longrightarrow> newline \<notin> set C"
  using word_not_newline by blast

text \<open>
  C1, amended. A database line is a line of the database text with the newline that ends
  it; what follows the last newline is not a database line and is not matched. For a
  candidate of word characters, the permissive search returns exactly the database lines
  that begin with the candidate, and the strict search exactly those that begin with the
  candidate followed by the delimiter of the format, in the order of the text and letters
  compared without case. For the lines \<^verbatim>\<open>GEF\tfoo\<close> and \<^verbatim>\<open>GEFS\tbar\<close> the strict search for
  \<^verbatim>\<open>GEF\<close> returns the first and the permissive search returns both.
\<close>

theorem search_policy_lines:
  assumes "\<forall>c\<in>set C. is_word c" and "abbreviations d = Some db"
  shows "(permissive d \<longrightarrow> results d C = Inr (filter (begins_with C) (db_lines db))) \<and>
         (\<not> permissive d \<longrightarrow>
            (\<forall>p. parsers d (db_type d) = Some p \<and> newline \<notin> set (delimiter p) \<longrightarrow>
               results d C = Inr (filter (begins_with (C @ delimiter p)) (db_lines db))))"
  using assms words_no_newline [of C] results_permissive [of d db C] results_strict [of d _ db C]
  by blast

lemma is_word_GEF: "\<forall>c\<in>set ''GEF''. is_word c"
  by (simp add: is_word_def is_alpha_def is_upper_def is_lower_def is_digit_def code_def)

lemma tab_not_newline: "newline \<noteq> tab"
  by (simp add: newline_def tab_def)

theorem search_policy_lines_witness:
  "results (example_doc ''adam'' False [] (Some example_db)) ''GEF'' =
     Inr [''GEF'' @ [tab] @ ''foo'' @ [newline]] \<and>
   results (example_doc ''adam'' True [] (Some example_db)) ''GEF'' =
     Inr [''GEF'' @ [tab] @ ''foo'' @ [newline], ''GEFS'' @ [tab] @ ''bar'' @ [newline]]"
proof -
  let ?s = "example_doc ''adam'' False [] (Some example_db)"
  let ?p = "example_doc ''adam'' True [] (Some example_db)"
  let ?e = "\<lparr>engine = example_engine, delimiter = [tab]\<rparr>"
  have s: "\<not> permissive ?s" "abbreviations ?s = Some example_db"
          "parsers ?s (db_type ?s) = Some ?e \<and> newline \<notin> set (delimiter ?e)"
    by (simp_all add: example_doc_def tab_not_newline)
  have p: "permissive ?p" "abbreviations ?p = Some example_db"
    by (simp_all add: example_doc_def)
  have "results ?s ''GEF'' = Inr (filter (begins_with (''GEF'' @ delimiter ?e)) (db_lines example_db))"
    using search_policy_lines [OF is_word_GEF s(2)] s(1) s(3) by blast
  moreover have "results ?p ''GEF'' = Inr (filter (begins_with ''GEF'') (db_lines example_db))"
    using search_policy_lines [OF is_word_GEF p(2)] p(1) by blast
  moreover have "filter (begins_with (''GEF'' @ delimiter ?e)) (db_lines example_db) =
                   [''GEF'' @ [tab] @ ''foo'' @ [newline]]"
    by code_simp
  moreover have "filter (begins_with ''GEF'') (db_lines example_db) =
                   [''GEF'' @ [tab] @ ''foo'' @ [newline], ''GEFS'' @ [tab] @ ''bar'' @ [newline]]"
    by code_simp
  ultimately show ?thesis by simp
qed

text \<open>
  C1, as stated, fails for a last line without a newline: \<^verbatim>\<open>GEF\tfoo\<close> begins with the
  candidate and the delimiter, and the strict search of a database text that is this line
  alone returns nothing; \<^verbatim>\<open>GEFS\tbar\<close> begins with the candidate, and the permissive search
  of the two lines, the second without its newline, returns the first only.
\<close>

theorem final_line_counterexample:
  "begins_with (''GEF'' @ [tab]) (''GEF'' @ [tab] @ ''foo'') \<and>
   results (example_doc ''adam'' False [] (Some (''GEF'' @ [tab] @ ''foo''))) ''GEF'' = Inr [] \<and>
   begins_with ''GEF'' (''GEFS'' @ [tab] @ ''bar'') \<and>
   results (example_doc ''adam'' True []
              (Some (''GEF'' @ [tab] @ ''foo'' @ [newline] @ ''GEFS'' @ [tab] @ ''bar''))) ''GEF'' =
     Inr [''GEF'' @ [tab] @ ''foo'' @ [newline]]"
proof -
  let ?a = "''GEF'' @ [tab] @ ''foo''"
  let ?b = "''GEF'' @ [tab] @ ''foo'' @ [newline] @ ''GEFS'' @ [tab] @ ''bar''"
  have n: "newline \<notin> set ''GEF''" using is_word_GEF by (rule words_no_newline)
  have 1: "begins_with (''GEF'' @ [tab]) ?a" by code_simp
  have 3: "begins_with ''GEF'' (''GEFS'' @ [tab] @ ''bar'')" by code_simp
  have "filter (begins_with (''GEF'' @ [tab])) (db_lines ?a) = []" by code_simp
  then have 2: "results (example_doc ''adam'' False [] (Some ?a)) ''GEF'' = Inr []"
    using results_strict [of "example_doc ''adam'' False [] (Some ?a)"
        "\<lparr>engine = example_engine, delimiter = [tab]\<rparr>" ?a "''GEF''"] n
    by (simp add: example_doc_def tab_not_newline)
  have "filter (begins_with ''GEF'') (db_lines ?b) = [''GEF'' @ [tab] @ ''foo'' @ [newline]]"
    by code_simp
  then have 4: "results (example_doc ''adam'' True [] (Some ?b)) ''GEF'' =
                  Inr [''GEF'' @ [tab] @ ''foo'' @ [newline]]"
    using results_permissive [of "example_doc ''adam'' True [] (Some ?b)" ?b "''GEF''"] n
    by (simp add: example_doc_def)
  from 1 2 3 4 show ?thesis by blast
qed

text \<open>
  C9. Under both policies, what follows the last newline of the database text is not
  matched: the search returns what it returns without that unterminated line, the
  unterminated line is not among the matched lines, and every matched line ends with a
  newline.
\<close>

theorem unterminated_line_not_matched:
  assumes "\<forall>c\<in>set C. is_word c"
    and "abbreviations d = Some (db @ final)"
    and "newline \<notin> set final"
    and "\<forall>p. parsers d (db_type d) = Some p \<longrightarrow> newline \<notin> set (delimiter p)"
  shows "results d C = results (d\<lparr>abbreviations := Some db\<rparr>) C \<and>
         (\<forall>ls. results d C = Inr ls \<longrightarrow>
            final \<notin> set ls \<and> (\<forall>l\<in>set ls. l \<noteq> [] \<and> last l = newline))"
proof -
  let ?d = "d\<lparr>abbreviations := Some db\<rparr>"
  have n: "newline \<notin> set C" using assms(1) by (rule words_no_newline)
  have u: "db_lines (db @ final) = db_lines db"
    using assms(3) by (rule db_lines_unterminated)
  have fin: "final \<notin> set (db_lines db)"
    using assms(3) db_lines_end [of final db] by (cases final rule: rev_cases) auto
  have "\<exists>x. results d C = Inr (filter (begins_with x) (db_lines db)) \<and>
            results ?d C = Inr (filter (begins_with x) (db_lines db)) \<or>
        results d C = Inl KeyError \<and> results ?d C = Inl KeyError"
  proof (cases "permissive d")
    case True
    then show ?thesis
      using results_permissive [of d "db @ final" C] results_permissive [of ?d db C] n assms(2) u
      by auto
  next
    case False
    show ?thesis
    proof (cases "parsers d (db_type d)")
      case None
      with False show ?thesis
        using results_unknown [of d C] results_unknown [of ?d C] by simp
    next
      case (Some p)
      with assms(4) have "newline \<notin> set (delimiter p)" by blast
      with False Some show ?thesis
        using results_strict [of d p "db @ final" C] results_strict [of ?d p db C] n assms(2) u
        by auto
    qed
  qed
  moreover have "\<And>x. final \<notin> set (filter (begins_with x) (db_lines db))"
    using fin by simp
  moreover have "\<And>x l. l \<in> set (filter (begins_with x) (db_lines db)) \<Longrightarrow> l \<noteq> [] \<and> last l = newline"
    using db_lines_end [of _ db] by simp
  ultimately show ?thesis by (metis Inl_Inr_False sum.inject(2))
qed

lemma example_results:
  "results (example_doc ''adam'' False body (Some example_db)) ''GEF'' =
     Inr [''GEF'' @ [tab] @ ''foo'' @ [newline]]"
  "results (example_doc ''adam'' True body (Some example_db)) ''GEF'' =
     Inr [''GEF'' @ [tab] @ ''foo'' @ [newline], ''GEFS'' @ [tab] @ ''bar'' @ [newline]]"
proof -
  have n: "newline \<notin> set ''GEF''" using is_word_GEF by (rule words_no_newline)
  have "filter (begins_with (''GEF'' @ [tab])) (db_lines example_db) =
          [''GEF'' @ [tab] @ ''foo'' @ [newline]]"
    by code_simp
  then show "results (example_doc ''adam'' False body (Some example_db)) ''GEF'' =
     Inr [''GEF'' @ [tab] @ ''foo'' @ [newline]]"
    using results_strict [of "example_doc ''adam'' False body (Some example_db)"
        "\<lparr>engine = example_engine, delimiter = [tab]\<rparr>" example_db "''GEF''"] n
    by (simp add: example_doc_def tab_not_newline)
  have "filter (begins_with ''GEF'') (db_lines example_db) =
          [''GEF'' @ [tab] @ ''foo'' @ [newline], ''GEFS'' @ [tab] @ ''bar'' @ [newline]]"
    by code_simp
  then show "results (example_doc ''adam'' True body (Some example_db)) ''GEF'' =
     Inr [''GEF'' @ [tab] @ ''foo'' @ [newline], ''GEFS'' @ [tab] @ ''bar'' @ [newline]]"
    using results_permissive [of "example_doc ''adam'' True body (Some example_db)" example_db "''GEF''"] n
    by (simp add: example_doc_def)
qed

theorem unterminated_line_not_matched_witness:
  "results (example_doc ''adam'' False [] (Some (example_db @ ''GEF'' @ [tab] @ ''baz''))) ''GEF'' =
     Inr [''GEF'' @ [tab] @ ''foo'' @ [newline]] \<and>
   results (example_doc ''adam'' True [] (Some (example_db @ ''GEF'' @ [tab] @ ''baz''))) ''GEF'' =
     Inr [''GEF'' @ [tab] @ ''foo'' @ [newline], ''GEFS'' @ [tab] @ ''bar'' @ [newline]]"
proof -
  let ?f = "''GEF'' @ [tab] @ ''baz''"
  have f: "newline \<notin> set ?f" by (simp add: newline_def tab_def)
  have a: "\<And>b. abbreviations (example_doc ''adam'' b [] (Some (example_db @ ?f))) = Some (example_db @ ?f)"
    by (simp add: example_doc_def)
  have r: "\<And>b. \<forall>p. parsers (example_doc ''adam'' b [] (Some (example_db @ ?f)))
                       (db_type (example_doc ''adam'' b [] (Some (example_db @ ?f)))) = Some p
               \<longrightarrow> newline \<notin> set (delimiter p)"
    by (auto simp: example_doc_def tab_not_newline)
  have e: "\<And>b. (example_doc ''adam'' b [] (Some (example_db @ ?f)))\<lparr>abbreviations := Some example_db\<rparr>
             = example_doc ''adam'' b [] (Some example_db)"
    by (simp add: example_doc_def)
  have "\<And>b. results (example_doc ''adam'' b [] (Some (example_db @ ?f))) ''GEF'' =
             results (example_doc ''adam'' b [] (Some example_db)) ''GEF''"
    using unterminated_line_not_matched [OF is_word_GEF a f r] e by simp
  then show ?thesis using example_results by simp
qed

section \<open>The candidate extractor\<close>

lemma af_flags [simp]:
  "ignorecase abbrs_flags" "multiline abbrs_flags" "dotall abbrs_flags"
  by (simp_all add: abbrs_flags_def)

lemma lower_not_upper: "\<not> is_upper c \<Longrightarrow> lower c = c"
  by (simp add: lower_def)

lemma lower_is_lower: "is_upper c \<Longrightarrow> is_lower (lower c)"
  using code_lower [of c] by (simp add: is_lower_def is_upper_def)

lemma lower_eq_nonalpha: "\<not> is_alpha a \<Longrightarrow> (lower c = lower a) = (c = a)"
proof (cases "is_upper c")
  case True
  assume a: "\<not> is_alpha a"
  then have la: "lower a = a" by (simp add: is_alpha_def lower_not_upper)
  from True have "is_alpha (lower c)" "is_alpha c"
    by (simp_all add: is_alpha_def lower_is_lower)
  with a la show ?thesis by auto
next
  case False
  assume a: "\<not> is_alpha a"
  then show ?thesis using False by (simp add: is_alpha_def lower_not_upper)
qed

lemma paren_not_alpha: "\<not> is_alpha CHR ''(''" "\<not> is_alpha CHR '')''"
  by (simp_all add: is_alpha_def is_upper_def is_lower_def code_def)

lemma paren_not_word: "\<not> is_word CHR ''(''" "\<not> is_word CHR '')''"
  by (simp_all add: is_word_def is_digit_def is_alpha_def is_upper_def is_lower_def code_def)

lemma lit_paren [simp]:
  "cls_ok abbrs_flags (Lit CHR ''('') c = (c = CHR ''('')"
  "cls_ok abbrs_flags (Lit CHR '')'') c = (c = CHR '')'')"
  by (simp_all add: lower_eq_nonalpha paren_not_alpha)

lemma range_alpha [simp]: "cls_ok abbrs_flags (Range CHR ''a'' CHR ''z'') c = is_alpha c"
proof -
  have a: "code (lower CHR ''a'') = 97" "code (lower CHR ''z'') = 122"
    by (simp_all add: lower_def is_upper_def code_def)
  show ?thesis
  proof (cases "is_upper c")
    case True
    then show ?thesis using code_lower [OF True] a
      by (simp add: is_alpha_def is_upper_def)
  next
    case False
    then show ?thesis using a
      by (simp add: lower_not_upper is_alpha_def is_lower_def)
  qed
qed

lemma digit_not_alpha: "is_digit c \<Longrightarrow> \<not> is_alpha c"
  by (auto simp: is_digit_def is_alpha_def is_upper_def is_lower_def)

lemma alpha_is_word: "is_alpha c \<Longrightarrow> is_word c"
  by (simp add: is_word_def)

lemma cls_fun [simp]: "cls_ok f WordC = is_word" "cls_ok f Digit = is_digit"
  by (simp_all add: fun_eq_iff)

lemma one_bol: "rmatch f (One q # r) b s = rmatch f (One q # r) b' s"
  by (cases s) simp_all

lemma greedy_one:
  assumes "\<And>c. cls_ok f k c \<Longrightarrow> \<not> cls_ok f q c"
  shows "rmatch f (Greedy k # One q # r) b s =
         map_option ((@) (takeWhile (cls_ok f k) s))
           (rmatch f (One q # r) b (dropWhile (cls_ok f k) s))"
proof (induction s arbitrary: b)
  case Nil
  then show ?case by simp
next
  case (Cons c s)
  show ?case
  proof (cases "cls_ok f k c")
    case False
    then show ?thesis by (cases "cls_ok f q c") (simp_all add: option.map_ident)
  next
    case True
    let ?b = "multiline f \<and> c = newline"
    have q: "rmatch f (One q # r) b (c # s) = None"
      using assms [OF True] by simp
    have ih: "rmatch f (Greedy k # One q # r) ?b s =
              map_option ((@) (takeWhile (cls_ok f k) s))
                (rmatch f (One q # r) b (dropWhile (cls_ok f k) s))"
      using Cons [of ?b] one_bol [of f q r ?b _ b] by simp
    show ?thesis
    proof (cases "rmatch f (One q # r) b (dropWhile (cls_ok f k) s)")
      case None
      with ih q True show ?thesis by simp
    next
      case (Some m)
      with ih True show ?thesis by simp
    qed
  qed
qed


lemma word_close:
  "rmatch abbrs_flags [Greedy WordC, One (Lit CHR '')'')] b s =
     (case dropWhile is_word s of
        [] \<Rightarrow> None
      | e # _ \<Rightarrow> if e = CHR '')'' then Some (takeWhile is_word s @ [e]) else None)"
proof -
  have "\<And>c. cls_ok abbrs_flags WordC c \<Longrightarrow> \<not> cls_ok abbrs_flags (Lit CHR '')'') c"
    using paren_not_word by (auto simp del: cls_ok.simps(1))
  from greedy_one [of abbrs_flags WordC "Lit CHR '')''" "[]" b s, OF this]
  show ?thesis
    by (simp del: cls_ok.simps(1) dropWhile_eq_Nil_conv split: list.split)
qed

lemma digits_alpha:
  "rmatch abbrs_flags (Greedy Digit # One (Range CHR ''a'' CHR ''z'') # r) b s =
     (case dropWhile is_digit s of
        [] \<Rightarrow> None
      | a # t \<Rightarrow> if is_alpha a
                 then map_option (\<lambda>m. takeWhile is_digit s @ a # m) (rmatch abbrs_flags r (a = newline) t)
                 else None)"
proof -
  have "\<And>c. cls_ok abbrs_flags Digit c \<Longrightarrow> \<not> cls_ok abbrs_flags (Range CHR ''a'' CHR ''z'') c"
    using digit_not_alpha by (auto simp del: cls_ok.simps(2))
  from greedy_one [of abbrs_flags Digit "Range CHR ''a'' CHR ''z''" r b s, OF this]
  show ?thesis
    by (simp del: cls_ok.simps(2) dropWhile_eq_Nil_conv add: option.map_comp comp_def split: list.split)
qed


lemma abbr_shaped_iff:
  "abbr_shaped x =
     (\<exists>ds a ws. x = ds @ a # ws \<and> (\<forall>c\<in>set ds. is_digit c) \<and> is_alpha a \<and> (\<forall>c\<in>set ws. is_word c))"
proof
  assume h: "abbr_shaped x"
  then obtain a ws where d: "dropWhile is_digit x = a # ws" and a: "is_alpha a"
    and w: "list_all is_word ws"
    by (auto simp: abbr_shaped_def split: list.splits)
  have "x = takeWhile is_digit x @ a # ws" using d takeWhile_dropWhile_id [of is_digit x] by simp
  moreover have "\<forall>c\<in>set (takeWhile is_digit x). is_digit c" by (auto dest: set_takeWhileD)
  ultimately show "\<exists>ds a ws. x = ds @ a # ws \<and> (\<forall>c\<in>set ds. is_digit c) \<and> is_alpha a \<and> (\<forall>c\<in>set ws. is_word c)"
    using a w by (auto simp: list_all_iff)
next
  assume "\<exists>ds a ws. x = ds @ a # ws \<and> (\<forall>c\<in>set ds. is_digit c) \<and> is_alpha a \<and> (\<forall>c\<in>set ws. is_word c)"
  then obtain ds a ws where x: "x = ds @ a # ws" and ds: "\<forall>c\<in>set ds. is_digit c"
    and a: "is_alpha a" and ws: "\<forall>c\<in>set ws. is_word c"
    by blast
  have "\<not> is_digit a" using a digit_not_alpha by blast
  then have "dropWhile is_digit x = a # ws" using x ds by simp
  then show "abbr_shaped x" using a ws by (simp add: abbr_shaped_def list_all_iff)
qed

lemma abbrs_match_shape:
  assumes ds: "\<forall>c\<in>set ds. is_digit c" and a: "is_alpha a" and ws: "\<forall>c\<in>set ws. is_word c"
  shows "rmatch abbrs_flags abbrs b (CHR ''('' # ds @ a # ws @ CHR '')'' # rest) =
         Some (CHR ''('' # ds @ a # ws @ [CHR '')''])"
proof -
  have na: "\<not> is_digit a" using a digit_not_alpha by blast
  have d: "dropWhile is_digit (ds @ a # ws @ CHR '')'' # rest) = a # ws @ CHR '')'' # rest"
    using ds na by simp
  have t: "takeWhile is_digit (ds @ a # ws @ CHR '')'' # rest) = ds"
    using ds na by simp
  have d': "dropWhile is_word (ws @ CHR '')'' # rest) = CHR '')'' # rest"
    using ws paren_not_word by simp
  have t': "takeWhile is_word (ws @ CHR '')'' # rest) = ws"
    using ws paren_not_word by simp
  show ?thesis
    unfolding abbrs_def
    by (simp del: cls_ok.simps(1) cls_ok.simps(2) add: digits_alpha word_close d t d' t' a)
qed

lemma abbrs_match_Some:
  assumes "rmatch abbrs_flags abbrs b s = Some m"
  shows "\<exists>ds a ws rest. s = CHR ''('' # ds @ a # ws @ CHR '')'' # rest \<and>
           m = CHR ''('' # ds @ a # ws @ [CHR '')''] \<and>
           (\<forall>c\<in>set ds. is_digit c) \<and> is_alpha a \<and> (\<forall>c\<in>set ws. is_word c)"
proof (cases s)
  case Nil
  with assms show ?thesis by (simp add: abbrs_def)
next
  case (Cons c s1)
  with assms have c: "c = CHR ''(''"
    by (simp del: cls_ok.simps(1) cls_ok.simps(2) add: abbrs_def split: if_splits)
  from assms Cons c obtain a t where d: "dropWhile is_digit s1 = a # t" and a: "is_alpha a"
    and r: "map_option (\<lambda>m. takeWhile is_digit s1 @ a # m)
              (rmatch abbrs_flags [Greedy WordC, One (Lit CHR '')'')] (a = newline) t) = Some (tl m)"
    and m: "m = CHR ''('' # tl m"
    by (auto simp del: cls_ok.simps(1) cls_ok.simps(2) dropWhile_eq_Nil_conv
             simp: abbrs_def digits_alpha split: list.splits if_splits)
  from r obtain rest where d': "dropWhile is_word t = CHR '')'' # rest"
    and tm: "tl m = takeWhile is_digit s1 @ a # takeWhile is_word t @ [CHR '')'']"
    by (auto simp del: dropWhile_eq_Nil_conv simp: word_close split: list.splits if_splits)
  have s1: "s1 = takeWhile is_digit s1 @ a # t"
    using d takeWhile_dropWhile_id [of is_digit s1] by simp
  have t: "t = takeWhile is_word t @ CHR '')'' # rest"
    using d' takeWhile_dropWhile_id [of is_word t] by simp
  have "s = CHR ''('' # takeWhile is_digit s1 @ a # takeWhile is_word t @ CHR '')'' # rest"
    using Cons c s1 t by simp
  moreover have "m = CHR ''('' # takeWhile is_digit s1 @ a # takeWhile is_word t @ [CHR '')'']"
    using m tm by simp
  moreover have "\<forall>c\<in>set (takeWhile is_digit s1). is_digit c" by (auto dest: set_takeWhileD)
  moreover have "\<forall>c\<in>set (takeWhile is_word t). is_word c" by (auto dest: set_takeWhileD)
  ultimately show ?thesis using a by blast
qed

lemma findall_elem:
  "m \<in> set (re_findall f p b s) \<Longrightarrow> \<exists>b' s'. rmatch f p b' s' = Some m"
proof (induction f p b s rule: re_findall.induct)
  case (1 f p bol)
  then show ?case by (auto split: option.splits)
next
  case (2 f p bol c s)
  show ?case
  proof (cases "rmatch f p bol (c # s)")
    case None
    with 2 show ?thesis by simp
  next
    case (Some x)
    with 2 show ?thesis by auto
  qed
qed

lemma abb_parens: "abb (CHR ''('' # x @ [CHR '')'']) = x"
  by (simp add: abb_def butlast_append)

lemma raw_shaped: "x \<in> set (abbrs_findall t) \<Longrightarrow> abbr_shaped x"
proof -
  assume "x \<in> set (abbrs_findall t)"
  then obtain m where m: "m \<in> set (re_findall abbrs_flags abbrs True t)" and x: "x = abb m"
    by (auto simp: abbrs_findall_def)
  from findall_elem [OF m] obtain b' s' where "rmatch abbrs_flags abbrs b' s' = Some m" by blast
  from abbrs_match_Some [OF this] obtain ds a ws where
    "m = CHR ''('' # (ds @ a # ws) @ [CHR '')'']" "\<forall>c\<in>set ds. is_digit c" "is_alpha a"
    "\<forall>c\<in>set ws. is_word c"
    by auto
  then show ?thesis using x abb_parens [of "ds @ a # ws"] abbr_shaped_iff by auto
qed

lemma shaped_has_letter: "abbr_shaped x \<Longrightarrow> \<exists>c\<in>set x. is_alpha c"
  by (auto simp: abbr_shaped_iff)

lemma digits_not_shaped: "\<forall>c\<in>set N. is_digit c \<Longrightarrow> \<not> abbr_shaped N"
  using shaped_has_letter digit_not_alpha by blast

lemma findall_finds:
  assumes ds: "\<forall>c\<in>set ds. is_digit c" and a: "is_alpha a" and ws: "\<forall>c\<in>set ws. is_word c"
  shows "(CHR ''('' # ds @ a # ws @ [CHR '')'']) \<in>
           set (re_findall abbrs_flags abbrs b (pre @ CHR ''('' # ds @ a # ws @ CHR '')'' # post))"
proof (induction pre arbitrary: b rule: length_induct)
  case (1 pre)
  let ?m = "CHR ''('' # ds @ a # ws @ [CHR '')'']"
  let ?t = "CHR ''('' # ds @ a # ws @ CHR '')'' # post"
  show ?case
  proof (cases pre)
    case Nil
    have "rmatch abbrs_flags abbrs b ?t = Some ?m"
      using ds a ws by (rule abbrs_match_shape)
    with Nil show ?thesis by simp
  next
    case (Cons c pre')
    show ?thesis
    proof (cases "rmatch abbrs_flags abbrs b (c # pre' @ ?t)")
      case None
      have "length pre' < length pre" using Cons by simp
      with 1 have "?m \<in> set (re_findall abbrs_flags abbrs (c = newline) (pre' @ ?t))" by blast
      with None Cons show ?thesis by simp
    next
      case (Some m)
      from abbrs_match_Some [OF Some] obtain es e vs rest where
        s: "c # pre' @ ?t = CHR ''('' # es @ e # vs @ CHR '')'' # rest"
        and m: "m = CHR ''('' # es @ e # vs @ [CHR '')'']"
        and es: "\<forall>c\<in>set es. is_digit c" and e: "is_alpha e" and vs: "\<forall>c\<in>set vs. is_word c"
        by blast
      let ?body = "es @ e # vs @ [CHR '')'']"
      have nop: "CHR ''('' \<notin> set ?body"
        using es e vs paren_not_word paren_not_alpha
        by (auto simp: is_word_def)
      from s have p: "pre' @ ?t = ?body @ rest" by simp
      have le: "length ?body \<le> length pre'"
      proof (rule ccontr)
        assume "\<not> length ?body \<le> length pre'"
        then have lt: "length pre' < length ?body" by simp
        have "(pre' @ ?t) ! length pre' = CHR ''(''" by simp
        with p have "(?body @ rest) ! length pre' = CHR ''(''" by simp
        with lt have "?body ! length pre' = CHR ''(''" by (simp only: nth_append if_True)
        with lt nop show False using nth_mem by metis
      qed
      then have dr: "drop (length m - 1) (pre' @ ?t) = drop (length ?body) pre' @ ?t"
        using m by simp
      have "length (drop (length ?body) pre') < length pre" using Cons by simp
      with 1 have "\<And>b. ?m \<in> set (re_findall abbrs_flags abbrs b (drop (length ?body) pre' @ ?t))"
        by blast
      with Some Cons dr show ?thesis by simp
    qed
  qed
qed

lemma shaped_found:
  assumes "abbr_shaped X"
  shows "X \<in> set (abbrs_findall (pre @ CHR ''('' # X @ CHR '')'' # post))"
proof -
  from assms obtain ds a ws where x: "X = ds @ a # ws" and ds: "\<forall>c\<in>set ds. is_digit c"
    and a: "is_alpha a" and ws: "\<forall>c\<in>set ws. is_word c"
    using abbr_shaped_iff by blast
  from findall_finds [OF ds a ws, of True pre post]
  have "abb (CHR ''('' # X @ [CHR '')'']) \<in> set (abbrs_findall (pre @ CHR ''('' # X @ CHR '')'' # post))"
    using x by (simp add: abbrs_findall_def)
  then show ?thesis by (simp only: abb_parens)
qed

lemma find_abbr_set:
  "set (find_abbr plurals d) = (\<Union>x\<in>set (abbrs_findall (content d)). set (plurals x))"
  by (simp add: find_abbr_def)

text \<open>
  C2, amended. A token \<open>N\<close> of digits only is never among the tokens that the pattern of
  \<open>find_abbr\<close> extracts, so no parenthetical \<^verbatim>\<open>(N)\<close> contributes it or its variants: every
  candidate is a variant that \<open>plurals\<close> derives from an extracted token of the shape
  digits, letter, word characters, which is not \<open>N\<close>. When \<open>plurals\<close> derives from such a
  token only variants with a letter, \<open>N\<close> is not a candidate.
\<close>

theorem digits_not_extracted:
  assumes "\<forall>c\<in>set N. is_digit c"
  shows "N \<notin> set (abbrs_findall (content d)) \<and>
         (\<forall>c\<in>set (find_abbr plurals d).
            \<exists>x\<in>set (abbrs_findall (content d)). abbr_shaped x \<and> x \<noteq> N \<and> c \<in> set (plurals x)) \<and>
         ((\<forall>x v. abbr_shaped x \<and> v \<in> set (plurals x) \<longrightarrow> (\<exists>c\<in>set v. is_alpha c)) \<longrightarrow>
            N \<notin> set (find_abbr plurals d))"
proof -
  have n: "\<not> abbr_shaped N" using assms by (rule digits_not_shaped)
  then have 1: "N \<notin> set (abbrs_findall (content d))" using raw_shaped by blast
  have 2: "\<forall>c\<in>set (find_abbr plurals d).
            \<exists>x\<in>set (abbrs_findall (content d)). abbr_shaped x \<and> x \<noteq> N \<and> c \<in> set (plurals x)"
    using n raw_shaped by (fastforce simp: find_abbr_set)
  have 3: "(\<forall>x v. abbr_shaped x \<and> v \<in> set (plurals x) \<longrightarrow> (\<exists>c\<in>set v. is_alpha c)) \<longrightarrow>
            N \<notin> set (find_abbr plurals d)"
    using 2 assms digit_not_alpha by blast
  from 1 2 3 show ?thesis by blast
qed

theorem digits_not_extracted_witness:
  "''12'' \<notin> set (find_abbr itself (example_doc ''adam'' False ''the (MAB) pathway (12)'' None))"
proof -
  have d: "\<forall>c\<in>set ''12''. is_digit c" by (simp add: is_digit_def code_def)
  have "\<forall>x v. abbr_shaped x \<and> v \<in> set (itself x) \<longrightarrow> (\<exists>c\<in>set v. is_alpha c)"
    using shaped_has_letter by (simp add: itself_def)
  with digits_not_extracted [OF d, of "example_doc ''adam'' False ''the (MAB) pathway (12)'' None" itself]
  show ?thesis by blast
qed

lemma singular_contract: "singular x \<noteq> [] \<and> x \<in> set (singular x)"
  by (simp add: singular_def)

text \<open>
  C2, as stated, fails with a helper that derives singular forms: the content holds
  \<^verbatim>\<open>(12)\<close> and \<^verbatim>\<open>(12s)\<close>, the pattern extracts \<^verbatim>\<open>12s\<close> only, and its singular form
  \<^verbatim>\<open>12\<close> is a candidate.
\<close>

theorem derived_digits_counterexample:
  "content (example_doc ''adam'' False ''see (12) and the (12s)'' None) =
     ''see '' @ CHR ''('' # ''12'' @ CHR '')'' # '' and the (12s)'' \<and>
   list_all is_digit ''12'' \<and>
   singular ''12s'' = [''12s'', ''12''] \<and>
   ''12'' \<in> set (find_abbr singular (example_doc ''adam'' False ''see (12) and the (12s)'' None))"
proof -
  have a: "abbrs_findall ''see (12) and the (12s)'' = [''12s'']" by code_simp
  have s: "singular ''12s'' = [''12s'', ''12'']" by (simp add: singular_def)
  have d: "list_all is_digit ''12''" by (simp add: is_digit_def code_def)
  from a s d show ?thesis by (simp add: find_abbr_def example_doc_def)
qed

text \<open>
  C3, as stated, fails: \<^verbatim>\<open>(a b)\<close> and \<^verbatim>\<open>(1_a)\<close> hold a letter, and the document that
  contains them has no candidate.
\<close>

theorem letter_not_enough_counterexample:
  "content (example_doc ''adam'' False ''see (a b) and (1_a)'' None) =
     ''see '' @ CHR ''('' # ''a b'' @ CHR '')'' # '' and (1_a)'' \<and>
   CHR ''a'' \<in> set ''a b'' \<and> is_alpha CHR ''a'' \<and>
   find_abbr itself (example_doc ''adam'' False ''see (a b) and (1_a)'' None) = []"
proof -
  have "abbrs_findall ''see (a b) and (1_a)'' = []" by code_simp
  moreover have "is_alpha CHR ''a''" by (simp add: is_alpha_def is_lower_def code_def)
  ultimately show ?thesis by (simp add: find_abbr_def example_doc_def)
qed

text \<open>
  C3, amended. For every parenthetical \<^verbatim>\<open>(X)\<close> of the content where \<open>X\<close> is digits (possibly
  none), then a letter, then word characters (possibly none), \<open>X\<close> is extracted and every
  variant that \<open>plurals\<close> derives from \<open>X\<close> is a candidate.
\<close>

theorem shaped_extracted:
  assumes "content d = pre @ CHR ''('' # X @ CHR '')'' # post" and "abbr_shaped X"
  shows "X \<in> set (abbrs_findall (content d)) \<and> set (plurals X) \<subseteq> set (find_abbr plurals d)"
proof -
  have "X \<in> set (abbrs_findall (content d))"
    using shaped_found [OF assms(2)] assms(1) by simp
  then show ?thesis by (auto simp: find_abbr_set)
qed

theorem shaped_extracted_witness:
  "''MAB'' \<in> set (find_abbr itself (example_doc ''adam'' False ''the (MAB) pathway (12)'' None))"
proof -
  let ?d = "example_doc ''adam'' False ''the (MAB) pathway (12)'' None"
  have c: "content ?d = ''the '' @ CHR ''('' # ''MAB'' @ CHR '')'' # '' pathway (12)''"
    by (simp add: example_doc_def)
  have s: "abbr_shaped ''MAB''" by code_simp
  from shaped_extracted [OF c s, of itself] show ?thesis by (simp add: itself_def)
qed

section \<open>The search over the candidates, and the result selector\<close>

lemma results_fail:
  "parsers d (db_type d) = None \<or> abbreviations d = None \<Longrightarrow>
   results d a = Inl KeyError \<or> results d a = Inl AttributeError \<or> (\<exists>ls. results d a = Inr ls \<and> parsers d (db_type d) = None)"
  by (auto simp: results_def search_string_def split: option.splits)

lemma results_total:
  "parsers d (db_type d) = Some p \<Longrightarrow> abbreviations d = Some db \<Longrightarrow> \<exists>ls. results d a = Inr ls"
  by (simp add: results_def search_string_def)

lemma search_loop_fails:
  assumes "cands \<noteq> []" and "parsers d (db_type d) = None \<or> abbreviations d = None"
  shows "search_loop d cands m = Inl KeyError \<or> search_loop d cands m = Inl AttributeError"
proof -
  from assms(1) obtain a rest where c: "cands = a # rest" by (cases cands) auto
  from results_fail [OF assms(2), of a] show ?thesis
  proof (elim disjE exE conjE)
    assume "results d a = Inl KeyError"
    with c show ?thesis by simp
  next
    assume "results d a = Inl AttributeError"
    with c show ?thesis by simp
  next
    fix ls assume "results d a = Inr ls" "parsers d (db_type d) = None"
    with c show ?thesis by simp
  qed
qed

lemma search_loop_unknown_imported:
  assumes "cands \<noteq> []" and "parsers d (db_type d) = None" and "abbreviations d = Some db"
  shows "search_loop d cands m = Inl KeyError"
proof -
  from assms(1) obtain a rest where c: "cands = a # rest" by (cases cands) auto
  show ?thesis using c assms(2,3)
    by (simp add: results_def search_string_def)
qed

lemma search_loop_keeps:
  "search_loop d cands m0 = Inr m \<Longrightarrow> c \<notin> set cands \<Longrightarrow> m c = m0 c"
proof (induction cands arbitrary: m0)
  case Nil
  then show ?case by simp
next
  case (Cons a cands)
  from Cons.prems(1) obtain ls p v where "results d a = Inr ls" "parsers d (db_type d) = Some p"
    "engine p ls = Inr v" and r: "search_loop d cands (m0(a \<mapsto> v)) = Inr m"
    by (auto split: sum.splits option.splits)
  from Cons.IH [OF r] Cons.prems(2) show ?case by simp
qed

lemma search_loop_entry:
  "search_loop d cands m0 = Inr m \<Longrightarrow> c \<in> set cands \<Longrightarrow> results d c = Inr ls \<Longrightarrow>
   parsers d (db_type d) = Some p \<Longrightarrow> engine p ls = Inr v \<Longrightarrow> m c = Some v"
proof (induction cands arbitrary: m0)
  case Nil
  then show ?case by simp
next
  case (Cons a cands)
  from Cons.prems(1,4) obtain ls' v' where a: "results d a = Inr ls'" "engine p ls' = Inr v'"
    and r: "search_loop d cands (m0(a \<mapsto> v')) = Inr m"
    by (auto split: sum.splits option.splits)
  show ?case
  proof (cases "c \<in> set cands")
    case True
    from Cons.IH [OF r True Cons.prems(3,4,5)] show ?thesis .
  next
    case False
    with Cons.prems(2) have ca: "c = a" by simp
    with a Cons.prems(3,5) have "v' = v" by simp
    with search_loop_keeps [OF r False] ca show ?thesis by simp
  qed
qed

lemma search_loop_returns:
  assumes "parsers d (db_type d) = Some p" and "abbreviations d = Some db"
    and "\<forall>a\<in>set cands. \<forall>ls. results d a = Inr ls \<longrightarrow> (\<exists>v. engine p ls = Inr v)"
  shows "\<exists>m. search_loop d cands m0 = Inr m"
  using assms(3)
proof (induction cands arbitrary: m0)
  case Nil
  then show ?case by simp
next
  case (Cons a cands)
  from results_total [OF assms(1,2), of a] obtain ls where l: "results d a = Inr ls" by blast
  with Cons.prems obtain v where v: "engine p ls = Inr v" by auto
  have "\<forall>a\<in>set cands. \<forall>ls. results d a = Inr ls \<longrightarrow> (\<exists>v. engine p ls = Inr v)"
    using Cons.prems by simp
  from Cons.IH [OF this, of "m0(a \<mapsto> v)"] obtain m where "search_loop d cands (m0(a \<mapsto> v)) = Inr m"
    by blast
  with l v assms(1) show ?case by simp
qed

text \<open>
  C6. Let the format be registered with an engine that maps no lines to the empty list, and
  let a candidate match no database line. Then every dictionary that \<open>search_database\<close>
  returns has the empty list under that candidate; and when the engine raises on no other
  candidate's lines, \<open>search_database\<close> does return a dictionary, with that entry.
\<close>

theorem empty_match_entry:
  assumes "parsers d (db_type d) = Some p" and "engine p [] = Inr []"
    and "c \<in> set (find_abbr plurals d)" and "results d c = Inr []"
  shows "(\<forall>m. snd (search_database plurals d) = Inr m \<longrightarrow> m c = Some []) \<and>
         ((\<forall>a\<in>set (find_abbr plurals d). \<forall>ls. results d a = Inr ls \<longrightarrow> (\<exists>v. engine p ls = Inr v)) \<longrightarrow>
            (\<exists>m. snd (search_database plurals d) = Inr m \<and> m c = Some []))"
proof -
  have 1: "\<forall>m. snd (search_database plurals d) = Inr m \<longrightarrow> m c = Some []"
    using search_loop_entry [OF _ assms(3) assms(4) assms(1) assms(2)]
    by (simp add: search_database_def)
  from assms(4) obtain db where db: "abbreviations d = Some db"
    by (auto simp: results_def split: sum.splits option.splits)
  have "(\<forall>a\<in>set (find_abbr plurals d). \<forall>ls. results d a = Inr ls \<longrightarrow> (\<exists>v. engine p ls = Inr v)) \<longrightarrow>
          (\<exists>m. snd (search_database plurals d) = Inr m)"
    using search_loop_returns [OF assms(1) db, of "find_abbr plurals d" Map.empty]
    by (simp add: search_database_def)
  with 1 show ?thesis by blast
qed

text \<open>
  C10. With no candidate, \<open>search_database\<close> returns the empty dictionary and leaves the
  instance as it was, whatever the format and whether or not the database was imported.
  With a candidate, an unregistered format or a database that was not imported makes it
  raise (\<^verbatim>\<open>KeyError\<close> or \<^verbatim>\<open>AttributeError\<close>).
\<close>

theorem no_candidates_no_lookup:
  "(find_abbr plurals d = [] \<longrightarrow> search_database plurals d = (d, Inr Map.empty)) \<and>
   (find_abbr plurals d \<noteq> [] \<and> (parsers d (db_type d) = None \<or> abbreviations d = None) \<longrightarrow>
      (snd (search_database plurals d) = Inl KeyError \<or>
       snd (search_database plurals d) = Inl AttributeError))"
  using search_loop_fails [of "find_abbr plurals d" d Map.empty]
  by (auto simp: search_database_def)

lemma example_candidates:
  "find_abbr itself (example_doc t b ''the (MAB) pathway'' db) = [''MAB'']"
  "find_abbr itself (example_doc t b '' the (MAB) pathway '' db) = [''MAB'']"
  "find_abbr itself (example_doc t b '' no abbreviation '' db) = []"
proof -
  have "abbrs_findall ''the (MAB) pathway'' = [''MAB'']" by code_simp
  then show "find_abbr itself (example_doc t b ''the (MAB) pathway'' db) = [''MAB'']"
    by (simp add: find_abbr_def example_doc_def itself_def)
  have "abbrs_findall '' the (MAB) pathway '' = [''MAB'']" by code_simp
  then show "find_abbr itself (example_doc t b '' the (MAB) pathway '' db) = [''MAB'']"
    by (simp add: find_abbr_def example_doc_def itself_def)
  have "abbrs_findall '' no abbreviation '' = []" by code_simp
  then show "find_abbr itself (example_doc t b '' no abbreviation '' db) = []"
    by (simp add: find_abbr_def example_doc_def)
qed

theorem no_candidates_no_lookup_witness:
  "search_database itself (example_doc ''foo'' False '' no abbreviation '' None) =
     (example_doc ''foo'' False '' no abbreviation '' None, Inr Map.empty) \<and>
   isl (snd (search_database itself (example_doc ''foo'' False ''the (MAB) pathway'' (Some example_db)))) \<and>
   isl (snd (search_database itself (example_doc ''adam'' False ''the (MAB) pathway'' None)))"
proof -
  let ?a = "example_doc ''foo'' False '' no abbreviation '' None"
  let ?b = "example_doc ''foo'' False ''the (MAB) pathway'' (Some example_db)"
  let ?c = "example_doc ''adam'' False ''the (MAB) pathway'' None"
  have "parsers ?b (db_type ?b) = None" "abbreviations ?c = None"
    by (simp_all add: example_doc_def)
  then show ?thesis
    using no_candidates_no_lookup [of itself ?a] no_candidates_no_lookup [of itself ?b]
      no_candidates_no_lookup [of itself ?c] example_candidates
    by auto
qed

text \<open>
  C7. \<open>get_top\<close> of a list that is not empty is the fields of its first entry; of the
  empty list it is the failure \<^verbatim>\<open>IndexError\<close>.
\<close>

theorem get_top_first:
  "(abbr_match \<noteq> [] \<longrightarrow> get_top abbr_match = Inr (snd (hd abbr_match))) \<and>
   (abbr_match = [] \<longrightarrow> get_top abbr_match = Inl IndexError)"
  by (cases abbr_match) (simp_all add: get_top_def)

text \<open>
  C8. \<open>search_database\<close> leaves the instance as it was: in particular its content and its
  database text are what they were before the call, whether it returns or raises.
\<close>

theorem search_database_frame:
  "fst (search_database plurals d) = d \<and>
   content (fst (search_database plurals d)) = content d \<and>
   abbreviations (fst (search_database plurals d)) = abbreviations d"
  by (simp add: search_database_def)

lemma init_unknown:
  assumes "init w adam doc_file db_file dbtype perm = Inr d" and "dbtype \<noteq> ''adam''"
  shows "parsers d (db_type d) = None" "abbreviations d = None" "permissive d = perm"
  using assms by (auto simp: init_def split: sum.splits)

lemma import_database_keeps:
  assumes "import_database w d = Inr d'"
  shows "parsers d' = parsers d" "db_type d' = db_type d" "content d' = content d"
    "permissive d' = permissive d" "\<exists>db. abbreviations d' = Some db"
  using assms by (auto simp: import_database_def split: option.splits)

text \<open>
  C5, amended. For an instance constructed with a format other than \<^verbatim>\<open>adam\<close>,
  \<open>search_database\<close> raises whenever the document has a candidate; once the database is
  imported, what it raises is \<^verbatim>\<open>KeyError\<close>.
\<close>

theorem unknown_format_fails:
  assumes "init w adam doc_file db_file dbtype perm = Inr d" and "dbtype \<noteq> ''adam''"
  shows "(find_abbr plurals d \<noteq> [] \<longrightarrow> (\<exists>e. snd (search_database plurals d) = Inl e)) \<and>
         (\<forall>w' d'. import_database w' d = Inr d' \<and> find_abbr plurals d' \<noteq> [] \<longrightarrow>
            snd (search_database plurals d') = Inl KeyError)"
proof -
  have u: "parsers d (db_type d) = None" using assms by (rule init_unknown)
  have 1: "find_abbr plurals d \<noteq> [] \<longrightarrow> (\<exists>e. snd (search_database plurals d) = Inl e)"
    using search_loop_fails [of "find_abbr plurals d" d Map.empty] u
    by (auto simp: search_database_def)
  have 2: "snd (search_database plurals d') = Inl KeyError"
    if i: "import_database w' d = Inr d'" and f: "find_abbr plurals d' \<noteq> []" for w' d'
  proof -
    from import_database_keeps [OF i] u obtain db where
      "parsers d' (db_type d') = None" "abbreviations d' = Some db"
      by auto
    from search_loop_unknown_imported [OF f this] show ?thesis
      by (simp add: search_database_def)
  qed
  from 1 2 show ?thesis by blast
qed


lemma example_no_lines:
  "results (example_doc ''adam'' False body (Some example_db)) ''MAB'' = Inr []"
proof -
  have w: "\<forall>c\<in>set ''MAB''. is_word c"
    by (simp add: is_word_def is_alpha_def is_upper_def is_lower_def is_digit_def code_def)
  have "filter (begins_with (''MAB'' @ [tab])) (db_lines example_db) = []" by code_simp
  then show ?thesis
    using results_strict [of "example_doc ''adam'' False body (Some example_db)"
        "\<lparr>engine = example_engine, delimiter = [tab]\<rparr>" example_db "''MAB''"]
      words_no_newline [OF w]
    by (simp add: example_doc_def tab_not_newline)
qed

theorem empty_match_entry_witness:
  "map_sum id (\<lambda>m. m ''MAB'')
     (snd (search_database itself (example_doc ''adam'' False ''the (MAB) pathway'' (Some example_db)))) =
   Inr (Some [])"
proof -
  let ?d = "example_doc ''adam'' False ''the (MAB) pathway'' (Some example_db)"
  let ?p = "\<lparr>engine = example_engine, delimiter = [tab]\<rparr>"
  have p: "parsers ?d (db_type ?d) = Some ?p" by (simp add: example_doc_def)
  have e: "engine ?p [] = Inr []" by (simp add: example_engine_def)
  have c: "''MAB'' \<in> set (find_abbr itself ?d)" by (simp add: example_candidates)
  have t: "\<forall>a\<in>set (find_abbr itself ?d). \<forall>ls. results ?d a = Inr ls \<longrightarrow> (\<exists>v. engine ?p ls = Inr v)"
    by (simp add: example_engine_def)
  from empty_match_entry [OF p e c example_no_lines] t
  obtain m where "snd (search_database itself ?d) = Inr m" "m ''MAB'' = Some []" by blast
  then show ?thesis by simp
qed

theorem get_top_first_witness:
  "get_top [(2::nat, ''long form''), (1, ''other'')] = Inr ''long form'' \<and>
   get_top ([] :: (nat \<times> string) list) = Inl IndexError"
  using get_top_first [of "[(2::nat, ''long form''), (1, ''other'')]"]
    get_top_first [of "[] :: (nat \<times> string) list"]
  by simp

theorem search_database_frame_witness:
  "content (fst (search_database itself (example_doc ''adam'' False ''the (MAB) pathway'' (Some example_db))))
     = ''the (MAB) pathway'' \<and>
   abbreviations (fst (search_database itself (example_doc ''adam'' False ''the (MAB) pathway'' (Some example_db))))
     = Some example_db"
  using search_database_frame [of itself "example_doc ''adam'' False ''the (MAB) pathway'' (Some example_db)"]
  by (simp add: example_doc_def)

lemma example_init:
  "cleanup xml = body \<Longrightarrow>
   init (example_world xml) example_engine ''paper.docx'' ''adam.txt'' t b = Inr (example_doc t b body None)"
  by (simp add: init_def read_def opener_def example_world_def example_doc_def)

lemma example_import:
  "import_database (example_world xml) (example_doc t b body None) =
     Inr (example_doc t b body (Some example_db))"
  by (simp add: import_database_def example_world_def example_doc_def)

text \<open>
  C5, as stated, fails: an instance is constructed with the format \<^verbatim>\<open>foo\<close>, its document
  has no candidate, and \<open>search_database\<close> returns the empty dictionary, before and after
  the database is imported.
\<close>

theorem unknown_format_silent_counterexample:
  "init (example_world ''<p>no abbreviation</p>'') example_engine ''paper.docx'' ''adam.txt'' ''foo'' False =
     Inr (example_doc ''foo'' False '' no abbreviation '' None) \<and>
   ''foo'' \<noteq> ''adam'' \<and>
   search_database itself (example_doc ''foo'' False '' no abbreviation '' None) =
     (example_doc ''foo'' False '' no abbreviation '' None, Inr Map.empty) \<and>
   import_database (example_world ''<p>no abbreviation</p>'')
       (example_doc ''foo'' False '' no abbreviation '' None) =
     Inr (example_doc ''foo'' False '' no abbreviation '' (Some example_db)) \<and>
   search_database itself (example_doc ''foo'' False '' no abbreviation '' (Some example_db)) =
     (example_doc ''foo'' False '' no abbreviation '' (Some example_db), Inr Map.empty)"
proof -
  have "cleanup ''<p>no abbreviation</p>'' = '' no abbreviation ''" by code_simp
  then show ?thesis
    by (simp add: example_init example_import search_database_def example_candidates)
qed

theorem unknown_format_fails_witness:
  "isl (snd (search_database itself (example_doc ''foo'' False '' the (MAB) pathway '' None))) \<and>
   snd (search_database itself (example_doc ''foo'' False '' the (MAB) pathway '' (Some example_db))) =
     Inl KeyError"
proof -
  let ?w = "example_world ''<p>the (MAB) pathway</p>''"
  let ?d = "example_doc ''foo'' False '' the (MAB) pathway '' None"
  let ?d' = "example_doc ''foo'' False '' the (MAB) pathway '' (Some example_db)"
  have "cleanup ''<p>the (MAB) pathway</p>'' = '' the (MAB) pathway ''" by code_simp
  then have i: "init ?w example_engine ''paper.docx'' ''adam.txt'' ''foo'' False = Inr ?d"
    by (rule example_init)
  have n: "''foo'' \<noteq> ''adam''" by simp
  have m: "import_database ?w ?d = Inr ?d'" by (rule example_import)
  have f: "find_abbr itself ?d \<noteq> []" "find_abbr itself ?d' \<noteq> []"
    by (simp_all add: example_candidates)
  from unknown_format_fails [OF i n, of itself] m f show ?thesis by auto
qed

end
